theory Spec2Isabelle
  imports Main
begin

section \<open>Python string helpers used by the automaton\<close>

text \<open>
  \<^verbatim>\<open>s.split(':')\<close>: the pieces between the separators, an empty piece between two
  adjacent separators, and always at least one piece.
\<close>

fun split_colon :: "string \<Rightarrow> string list" where
  "split_colon [] = [[]]"
| "split_colon (c # cs) =
     (if c = CHR '':'' then [] # split_colon cs
      else (case split_colon cs of
              [] \<Rightarrow> [[c]]
            | p # ps \<Rightarrow> (c # p) # ps))"

text \<open>\<^verbatim>\<open>s.startswith(p)\<close>.\<close>

fun startswith :: "string \<Rightarrow> string \<Rightarrow> bool" where
  "startswith s [] = True"
| "startswith [] (p # ps) = False"
| "startswith (c # cs) (p # ps) = (c = p \<and> startswith cs ps)"

text \<open>\<^verbatim>\<open>p in s\<close> on strings: \<open>p\<close> occurs in \<open>s\<close> as a contiguous piece.\<close>

fun str_contains :: "string \<Rightarrow> string \<Rightarrow> bool" where
  "str_contains [] p = (p = [])"
| "str_contains (c # cs) p = (startswith (c # cs) p \<or> str_contains cs p)"

section \<open>The pushdown automaton (pda.py)\<close>

record PDATransition =
  from_state :: string
  input_symbol :: string
  stack_top :: string
  to_state :: string
  stack_operation :: string

definition mk_transition ::
  "string \<Rightarrow> string \<Rightarrow> string \<Rightarrow> string \<Rightarrow> string \<Rightarrow> PDATransition" where
  "mk_transition f i s t ope =
     \<lparr>from_state = f, input_symbol = i, stack_top = s, to_state = t, stack_operation = ope\<rparr>"

text \<open>One entry of the execution trace, as \<open>_execute_transition\<close> records it.\<close>

record history_entry =
  h_state :: string
  h_input :: string
  h_stack_before :: "string list"
  h_transition :: PDATransition

text \<open>
  The mutable part of a \<open>PushdownAutomaton\<close> object. The Python list \<open>stack\<close> has its
  top at the end (\<open>stack[-1]\<close>) and its bottom at index 0, and so has the list here.
\<close>

record PushdownAutomaton =
  current_state :: string
  stack :: "string list"
  history :: "history_entry list"

definition initial_state :: string where
  "initial_state = ''qRate''"

definition accepting_states :: "string set" where
  "accepting_states = {''qEnd''}"

definition define_transitions :: "PDATransition list" where
  "define_transitions =
    [ mk_transition ''qRate'' ''R'' ''Z0'' ''qRhythm'' ''push:R'',
      mk_transition ''qRate'' ''Rh'' ''Z0'' ''qRhythm'' ''noop'',
      mk_transition ''qRhythm'' ''Rh'' ''R'' ''qAxis'' ''pop'',
      mk_transition ''qRhythm'' ''Rh'' ''Z0'' ''qAxis'' ''noop'',
      mk_transition ''qAxis'' ''Ax'' ''Z0'' ''qMorph'' ''push:QRS'',
      mk_transition ''qAxis'' ''Ax'' ''R'' ''qMorph'' ''push:QRS'',
      mk_transition ''qAxis'' ''Q'' ''Z0'' ''qMorph'' ''push:QRS'',
      mk_transition ''qAxis'' ''Detail'' ''Z0'' ''qDetail'' ''push:QRS:push:ExpectRepol'',
      mk_transition ''qAxis'' ''ST'' ''Z0'' ''qST'' ''push:QRS:push:ST'',
      mk_transition ''qAxis'' ''T'' ''Z0'' ''qEnd'' ''push:QRS'',
      mk_transition ''qMorph'' ''Q'' ''QRS'' ''qMorph'' ''noop'',
      mk_transition ''qMorph'' ''Detail'' ''QRS'' ''qDetail'' ''push:ExpectRepol'',
      mk_transition ''qDetail'' ''V1'' ''ExpectRepol'' ''qDetail'' ''noop'',
      mk_transition ''qDetail'' ''V2'' ''ExpectRepol'' ''qDetail'' ''noop'',
      mk_transition ''qDetail'' ''V3'' ''ExpectRepol'' ''qDetail'' ''noop'',
      mk_transition ''qDetail'' ''V4'' ''ExpectRepol'' ''qDetail'' ''noop'',
      mk_transition ''qDetail'' ''V5'' ''ExpectRepol'' ''qDetail'' ''noop'',
      mk_transition ''qDetail'' ''V6'' ''ExpectRepol'' ''qDetail'' ''noop'',
      mk_transition ''qDetail'' ''Detail'' ''ExpectRepol'' ''qDetail'' ''noop'',
      mk_transition ''qMorph'' ''ST'' ''QRS'' ''qST'' ''push:ST'',
      mk_transition ''qDetail'' ''ST'' ''ExpectRepol'' ''qST'' ''pop:push:ST'',
      mk_transition ''qST'' ''T'' ''ST'' ''qEnd'' ''pop'',
      mk_transition ''qST'' ''QT'' ''ST'' ''qEnd'' ''pop'',
      mk_transition ''qEnd'' ''Detail'' ''QRS'' ''qDetail'' ''push:ExpectRepol'',
      mk_transition ''qEnd'' ''T'' ''QRS'' ''qEnd'' ''pop'',
      mk_transition ''qEnd'' ''ST'' ''QRS'' ''qST'' ''push:ST'',
      mk_transition ''qEnd'' ''Q'' ''QRS'' ''qEnd'' ''pop'',
      mk_transition ''qDetail'' ''T'' ''QRS'' ''qEnd'' ''pop'' ]"

definition reset :: "PushdownAutomaton \<Rightarrow> PushdownAutomaton" where
  "reset m = m\<lparr>current_state := initial_state, stack := [''Z0''], history := []\<rparr>"

text \<open>The test of the loop in \<open>_find_transition\<close>.\<close>

definition matches :: "string \<Rightarrow> string \<Rightarrow> string \<Rightarrow> PDATransition \<Rightarrow> bool" where
  "matches st inp stk_top tr =
     (from_state tr = st \<and> input_symbol tr = inp \<and> stack_top tr = stk_top)"

text \<open>The first transition of the table that matches, or \<open>None\<close>.\<close>

definition find_transition ::
  "PushdownAutomaton \<Rightarrow> string \<Rightarrow> string \<Rightarrow> PDATransition option" where
  "find_transition m inp stk_top = find (matches (current_state m) inp stk_top) define_transitions"

text \<open>
  The loop \<^verbatim>\<open>for i in range(1, len(parts))\<close> of the push branch, over the pieces after
  the first one.
\<close>

fun push_parts :: "string list \<Rightarrow> string list \<Rightarrow> string list" where
  "push_parts [] stk = stk"
| "push_parts (p # ps) stk =
     push_parts ps (if p \<noteq> [] \<and> p \<noteq> ''push'' then stk @ [p] else stk)"

definition execute_transition ::
  "PDATransition \<Rightarrow> string \<Rightarrow> PushdownAutomaton \<Rightarrow> PushdownAutomaton" where
  "execute_transition transition inp m =
     (let m1 = m\<lparr>history := history m @
                   [\<lparr>h_state = current_state m, h_input = inp,
                     h_stack_before = stack m, h_transition = transition\<rparr>]\<rparr>;
          m2 = m1\<lparr>current_state := to_state transition\<rparr>;
          ope = stack_operation transition
      in if ope = ''pop'' then
           (if stack m2 \<noteq> [] then m2\<lparr>stack := butlast (stack m2)\<rparr> else m2)
         else if ope = ''noop'' then m2
         else if str_contains ope ''pop:push'' then
           (let m3 = (if stack m2 \<noteq> [] then m2\<lparr>stack := butlast (stack m2)\<rparr> else m2);
                symbol = last (split_colon ope)
            in m3\<lparr>stack := stack m3 @ [symbol]\<rparr>)
         else if startswith ope ''push:'' then
           m2\<lparr>stack := push_parts (drop 1 (split_colon ope)) (stack m2)\<rparr>
         else m2)"

text \<open>
  \<open>step\<close> returns its boolean together with the automaton it leaves. The message it
  prints when no transition is found is not part of the automaton and is left out.
\<close>

definition step :: "string \<Rightarrow> PushdownAutomaton \<Rightarrow> bool \<times> PushdownAutomaton" where
  "step inp m =
     (if stack m = [] then (False, m)
      else (let stk_top = last (stack m)
            in case find_transition m inp stk_top of
                 None \<Rightarrow> (False, m)
               | Some transition \<Rightarrow> (True, execute_transition transition inp m)))"

definition accepts :: "PushdownAutomaton \<Rightarrow> bool" where
  "accepts m = (current_state m \<in> accepting_states \<and> stack m = [''Z0''])"

definition is_incomplete :: "PushdownAutomaton \<Rightarrow> bool" where
  "is_incomplete m = (length (stack m) > 1 \<or> current_state m \<notin> accepting_states)"

text \<open>The loop of \<open>process_sequence\<close>, with its early \<^verbatim>\<open>return False\<close>.\<close>

fun process_loop :: "string list \<Rightarrow> PushdownAutomaton \<Rightarrow> bool \<times> PushdownAutomaton" where
  "process_loop [] m = (accepts m, m)"
| "process_loop (symbol # rest) m =
     (case step symbol m of
        (ok, m') \<Rightarrow> if \<not> ok then (False, m') else process_loop rest m')"

definition process_sequence ::
  "string list \<Rightarrow> PushdownAutomaton \<Rightarrow> bool \<times> PushdownAutomaton" where
  "process_sequence input_sequence m = process_loop input_sequence (reset m)"

definition get_missing_tasks :: "PushdownAutomaton \<Rightarrow> string list" where
  "get_missing_tasks m =
     (let missing = [];
          missing = (if ''ExpectRepol'' \<in> set (stack m) then missing @ [''ST'', ''T'']
                     else missing);
          missing = (if ''QRS'' \<in> set (stack m) then missing @ [''Q'', ''ST'', ''T'']
                     else missing);
          missing = (if ''ST'' \<in> set (stack m) then missing @ [''T''] else missing)
      in missing)"

text \<open>A freshly constructed automaton, as \<open>__init__\<close> leaves it.\<close>

definition new_pda :: PushdownAutomaton where
  "new_pda = \<lparr>current_state = initial_state, stack = [''Z0''], history = []\<rparr>"

section \<open>The scanpath completer (completion.py)\<close>

record completion_rule =
  required :: "string list"
  optional :: "string list"
  leads :: "string list"

text \<open>The dictionary of \<open>_define_completion_rules\<close>, looked up by stack symbol.\<close>

definition completion_rules :: "string \<rightharpoonup> completion_rule" where
  "completion_rules =
     map_of
      [ (''ExpectRepol'',
           \<lparr>required = [''ST'', ''T''], optional = [''QT''], leads = [''V3'', ''V4'', ''V5'']\<rparr>),
        (''QRS'',
           \<lparr>required = [''Q'', ''ST'', ''T''], optional = [''Detail''],
            leads = [''V1'', ''V2'', ''V3'']\<rparr>),
        (''ST'', \<lparr>required = [''T''], optional = [''QT''], leads = []\<rparr>),
        (''R'', \<lparr>required = [''Rh'', ''Ax''], optional = [], leads = [''II'']\<rparr>) ]"

definition max_iterations :: nat where
  "max_iterations = 50"

text \<open>
  The first loop of \<open>complete_scanpath\<close>: every symbol is stepped and the result of
  \<open>step\<close> is dropped.
\<close>

fun replay :: "string list \<Rightarrow> PushdownAutomaton \<Rightarrow> PushdownAutomaton" where
  "replay [] m = m"
| "replay (symbol # rest) m = replay rest (snd (step symbol m))"

text \<open>
  The inner loop of \<open>_generate_completion\<close> over the required tasks of a rule: each
  task is appended to the completion before it is stepped, and a failed step breaks.
\<close>

fun add_required ::
  "string list \<Rightarrow> string list \<Rightarrow> PushdownAutomaton \<Rightarrow> string list \<times> PushdownAutomaton" where
  "add_required [] completion m = (completion, m)"
| "add_required (task # rest) completion m =
     (case step task m of
        (success, m') \<Rightarrow>
          if \<not> success then (completion @ [task], m')
          else add_required rest (completion @ [task]) m')"

text \<open>
  The while loop of \<open>_generate_completion\<close>. It returns the locals at its exit: the
  completion, the automaton, the iteration counter, and whether it left through the
  break on an unknown stack symbol (which the source reports by a message only).
\<close>

function completion_loop ::
  "nat \<Rightarrow> string list \<Rightarrow> PushdownAutomaton \<Rightarrow>
     string list \<times> PushdownAutomaton \<times> nat \<times> bool" where
  "completion_loop iterations completion m =
     (if length (stack m) > 1 \<and> iterations < max_iterations then
        (case completion_rules (last (stack m)) of
           Some rule \<Rightarrow>
             (case add_required (required rule) completion m of
                (completion', m') \<Rightarrow> completion_loop (iterations + 1) completion' m')
         | None \<Rightarrow> (completion, m, iterations + 1, True))
      else (completion, m, iterations, False))"
  by pat_completeness auto
termination
  by (relation "measure (\<lambda>(iterations, completion, m). max_iterations - iterations)") auto

declare completion_loop.simps [simp del]

definition generate_completion ::
  "PushdownAutomaton \<Rightarrow> string list \<times> PushdownAutomaton" where
  "generate_completion m =
     (case completion_loop 0 [] m of
        (completion, m', iterations, unknown) \<Rightarrow> (completion, m'))"

definition complete_scanpath ::
  "string list \<Rightarrow> PushdownAutomaton \<Rightarrow> string list \<times> PushdownAutomaton" where
  "complete_scanpath partial_sequence m =
     (let m1 = replay partial_sequence (reset m)
      in if accepts m1 then (partial_sequence, m1)
         else (case generate_completion m1 of
                 (completion, m2) \<Rightarrow> (partial_sequence @ completion, m2)))"

definition validate_completion ::
  "string list \<Rightarrow> PushdownAutomaton \<Rightarrow> bool \<times> PushdownAutomaton" where
  "validate_completion completed_sequence m = process_sequence completed_sequence (reset m)"

section \<open>Predicates used by the properties\<close>

text \<open>The stack is non-empty and its bottom entry, \<open>stack[0]\<close>, is the sentinel.\<close>

definition has_sentinel :: "PushdownAutomaton \<Rightarrow> bool" where
  "has_sentinel m = (stack m \<noteq> [] \<and> stack m ! 0 = ''Z0'')"

text \<open>The automata that \<open>reset\<close> followed by any number of \<open>step\<close> calls leaves.\<close>

inductive reachable :: "PushdownAutomaton \<Rightarrow> bool" where
  reachable_reset: "reachable (reset m)"
| reachable_step: "reachable m \<Longrightarrow> reachable (snd (step inp m))"

text \<open>
  Every \<open>step\<close> of the sequence succeeds, each one taken from the automaton the previous
  one left.
\<close>

fun steps_ok :: "string list \<Rightarrow> PushdownAutomaton \<Rightarrow> bool" where
  "steps_ok [] m = True"
| "steps_ok (symbol # rest) m = (fst (step symbol m) \<and> steps_ok rest (snd (step symbol m)))"

text \<open>
  The part of an automaton that decides what it does next: its state and its stack.
  The history is only ever appended to.
\<close>

definition core :: "PushdownAutomaton \<Rightarrow> string \<times> string list" where
  "core m = (current_state m, stack m)"

text \<open>An automaton with the given state and stack and an empty history.\<close>

definition mk_pda :: "string \<Rightarrow> string list \<Rightarrow> PushdownAutomaton" where
  "mk_pda st stk = \<lparr>current_state = st, stack = stk, history = []\<rparr>"

text \<open>The states and stacks that occur after \<open>reset\<close> and any sequence of steps.\<close>

definition reachable_cores :: "(string \<times> string list) list" where
  "reachable_cores =
     [ (''qRate'', [''Z0'']),
       (''qRhythm'', [''Z0'', ''R'']),
       (''qRhythm'', [''Z0'']),
       (''qAxis'', [''Z0'']),
       (''qMorph'', [''Z0'', ''QRS'']),
       (''qDetail'', [''Z0'', ''QRS'', ''ExpectRepol'']),
       (''qST'', [''Z0'', ''QRS'', ''ST'']),
       (''qEnd'', [''Z0'', ''QRS'']),
       (''qEnd'', [''Z0'']) ]"

text \<open>
  What the while loop of \<open>_generate_completion\<close> returns, with the automaton it leaves
  reduced to its state and stack.
\<close>

definition loop_summary ::
  "nat \<Rightarrow> string list \<Rightarrow> PushdownAutomaton \<Rightarrow> string list \<times> (string \<times> string list) \<times> nat \<times> bool" where
  "loop_summary i c m =
     (case completion_loop i c m of (completion, m2, its, unk) \<Rightarrow> (completion, core m2, its, unk))"


section \<open>Executing a transition\<close>

lemma exec_current_state: "current_state (execute_transition t inp m) = to_state t"
  by (simp add: execute_transition_def Let_def)

lemma exec_history:
  "history (execute_transition t inp m) =
     history m @ [\<lparr>h_state = current_state m, h_input = inp,
                   h_stack_before = stack m, h_transition = t\<rparr>]"
  by (simp add: execute_transition_def Let_def)

lemma exec_stack_pop:
  "stack_operation t = ''pop'' \<Longrightarrow> stack (execute_transition t inp m) = butlast (stack m)"
  by (simp add: execute_transition_def Let_def)

lemma exec_stack_noop:
  "stack_operation t = ''noop'' \<Longrightarrow> stack (execute_transition t inp m) = stack m"
  by (simp add: execute_transition_def Let_def)

lemma exec_stack_pop_push:
  "stack_operation t = ''pop:push:ST'' \<Longrightarrow>
     stack (execute_transition t inp m) = butlast (stack m) @ [''ST'']"
  by (simp add: execute_transition_def Let_def)

lemma exec_stack_push_R:
  "stack_operation t = ''push:R'' \<Longrightarrow> stack (execute_transition t inp m) = stack m @ [''R'']"
  by (simp add: execute_transition_def Let_def)

lemma exec_stack_push_QRS:
  "stack_operation t = ''push:QRS'' \<Longrightarrow>
     stack (execute_transition t inp m) = stack m @ [''QRS'']"
  by (simp add: execute_transition_def Let_def)

lemma exec_stack_push_ST:
  "stack_operation t = ''push:ST'' \<Longrightarrow> stack (execute_transition t inp m) = stack m @ [''ST'']"
  by (simp add: execute_transition_def Let_def)

lemma exec_stack_push_ExpectRepol:
  "stack_operation t = ''push:ExpectRepol'' \<Longrightarrow>
     stack (execute_transition t inp m) = stack m @ [''ExpectRepol'']"
  by (simp add: execute_transition_def Let_def)

lemma exec_stack_push_QRS_ExpectRepol:
  "stack_operation t = ''push:QRS:push:ExpectRepol'' \<Longrightarrow>
     stack (execute_transition t inp m) = stack m @ [''QRS'', ''ExpectRepol'']"
  by (simp add: execute_transition_def Let_def)

lemma exec_stack_push_QRS_ST:
  "stack_operation t = ''push:QRS:push:ST'' \<Longrightarrow>
     stack (execute_transition t inp m) = stack m @ [''QRS'', ''ST'']"
  by (simp add: execute_transition_def Let_def)

lemmas exec_stack =
  exec_stack_pop exec_stack_noop exec_stack_pop_push exec_stack_push_R exec_stack_push_QRS
  exec_stack_push_ST exec_stack_push_ExpectRepol exec_stack_push_QRS_ExpectRepol
  exec_stack_push_QRS_ST

lemma step_failed_unchanged: "\<not> fst (step inp m) \<Longrightarrow> snd (step inp m) = m"
  by (simp add: step_def Let_def split: if_splits option.splits)

lemma butlast_keeps_bottom:
  "xs \<noteq> [] \<Longrightarrow> xs ! 0 = a \<Longrightarrow> last xs \<noteq> a \<Longrightarrow> butlast xs \<noteq> [] \<and> butlast xs ! 0 = a"
  by (cases xs) (auto split: if_splits)

lemma table_pops_above_bottom:
  "t \<in> set define_transitions \<Longrightarrow>
     (stack_top t \<noteq> ''Z0'' \<and> stack_operation t \<in> {''pop'', ''pop:push:ST''}) \<or>
     stack_operation t \<in> {''noop'', ''push:R'', ''push:QRS'', ''push:ST'', ''push:ExpectRepol'',
        ''push:QRS:push:ExpectRepol'', ''push:QRS:push:ST''}"
  unfolding define_transitions_def mk_transition_def by auto


section \<open>The sentinel stays at the bottom\<close>

lemma find_transition_Some:
  "find_transition m inp stk_top = Some t \<Longrightarrow>
     t \<in> set define_transitions \<and> matches (current_state m) inp stk_top t"
  unfolding find_transition_def by (auto simp: find_Some_iff)

lemma find_transition_None:
  "find_transition m inp stk_top = None \<longleftrightarrow>
     (\<forall>t\<in>set define_transitions. \<not> matches (current_state m) inp stk_top t)"
  unfolding find_transition_def by (auto simp: find_None_iff)

lemma execute_keeps_sentinel:
  assumes t: "t \<in> set define_transitions"
    and top: "last (stack m) = stack_top t"
    and inv: "has_sentinel m"
  shows "has_sentinel (execute_transition t inp m)"
proof -
  from inv have ne: "stack m \<noteq> []" and bot: "stack m ! 0 = ''Z0''"
    by (simp_all add: has_sentinel_def)
  from ne bot have app: "\<And>ys. (stack m @ ys) \<noteq> [] \<and> (stack m @ ys) ! 0 = ''Z0''"
    by (simp add: nth_append)
  from table_pops_above_bottom [OF t] show ?thesis
  proof
    assume pops: "stack_top t \<noteq> ''Z0'' \<and> stack_operation t \<in> {''pop'', ''pop:push:ST''}"
    with top have "last (stack m) \<noteq> ''Z0''" by simp
    with ne bot have bl: "butlast (stack m) \<noteq> [] \<and> butlast (stack m) ! 0 = ''Z0''"
      by (simp add: butlast_keeps_bottom)
    from pops have "stack_operation t = ''pop'' \<or> stack_operation t = ''pop:push:ST''"
      by simp
    then show ?thesis
    proof
      assume "stack_operation t = ''pop''"
      with bl show ?thesis by (simp add: has_sentinel_def exec_stack_pop)
    next
      assume "stack_operation t = ''pop:push:ST''"
      moreover from bl have "(butlast (stack m) @ [''ST'']) ! 0 = ''Z0''"
        by (cases "butlast (stack m)") simp_all
      ultimately show ?thesis by (simp add: has_sentinel_def exec_stack_pop_push)
    qed
  next
    assume "stack_operation t \<in> {''noop'', ''push:R'', ''push:QRS'', ''push:ST'',
        ''push:ExpectRepol'', ''push:QRS:push:ExpectRepol'', ''push:QRS:push:ST''}"
    then consider "stack_operation t = ''noop''" | "stack_operation t = ''push:R''"
      | "stack_operation t = ''push:QRS''" | "stack_operation t = ''push:ST''"
      | "stack_operation t = ''push:ExpectRepol''"
      | "stack_operation t = ''push:QRS:push:ExpectRepol''"
      | "stack_operation t = ''push:QRS:push:ST''"
      by blast
    then show ?thesis
      using ne bot by cases (simp_all add: has_sentinel_def exec_stack nth_append)
  qed
qed

lemma step_keeps_sentinel: "has_sentinel m \<Longrightarrow> has_sentinel (snd (step inp m))"
  by (auto simp: step_def Let_def split: option.splits
        dest!: find_transition_Some intro!: execute_keeps_sentinel simp: matches_def)

lemma reset_has_sentinel: "has_sentinel (reset m)"
  by (simp add: has_sentinel_def reset_def)

lemma process_loop_keeps_sentinel:
  "has_sentinel m \<Longrightarrow> has_sentinel (snd (process_loop s m))"
proof (induction s arbitrary: m)
  case Nil
  then show ?case by simp
next
  case (Cons x xs)
  from Cons.prems have "has_sentinel (snd (step x m))" by (rule step_keeps_sentinel)
  with Cons.IH show ?case by (cases "step x m") auto
qed

lemma reachable_has_sentinel: "reachable m \<Longrightarrow> has_sentinel m"
  by (induction rule: reachable.induct) (simp_all add: reset_has_sentinel step_keeps_sentinel)

lemmas run_defs = process_sequence_def reset_def initial_state_def step_def find_transition_def
  define_transitions_def mk_transition_def matches_def execute_transition_def accepts_def
  accepting_states_def Let_def

section \<open>The keys of the table\<close>

lemma table_keys_distinct:
  "distinct (map (\<lambda>t. (from_state t, input_symbol t, stack_top t)) define_transitions)"
  by (simp add: define_transitions_def mk_transition_def)

lemma filter_key_single:
  "distinct (map f xs) \<Longrightarrow> x \<in> set xs \<Longrightarrow> filter (\<lambda>y. f y = f x) xs = [x]"
proof (induction xs)
  case Nil
  then show ?case by simp
next
  case (Cons a xs)
  show ?case
  proof (cases "a = x")
    case True
    with Cons.prems have "\<forall>y\<in>set xs. f y \<noteq> f x" by (auto simp: image_iff)
    then have "filter (\<lambda>y. f y = f x) xs = []" by (simp add: filter_empty_conv)
    with True show ?thesis by simp
  next
    case False
    with Cons.prems have "x \<in> set xs" and "f a \<noteq> f x" by (auto simp: image_iff)
    with Cons show ?thesis by simp
  qed
qed

lemma find_of_filter_single: "filter P xs = [x] \<Longrightarrow> find P xs = Some x"
  by (induction xs) (auto split: if_splits)


section \<open>The history does not influence a run\<close>

lemma core_mk_pda: "core (mk_pda st stk) = (st, stk)"
  by (simp add: core_def mk_pda_def)

lemma reset_eq: "reset m = new_pda"
  by (simp add: reset_def new_pda_def)

lemma exec_core:
  "stack m = stack m' \<Longrightarrow> core (execute_transition t inp m) = core (execute_transition t inp' m')"
  by (simp add: core_def execute_transition_def Let_def)

lemma step_core:
  assumes "core m = core m'"
  shows "fst (step inp m) = fst (step inp m') \<and> core (snd (step inp m)) = core (snd (step inp m'))"
proof -
  from assms have st: "current_state m = current_state m'" and stk: "stack m = stack m'"
    by (simp_all add: core_def)
  have f: "find_transition m inp (last (stack m)) = find_transition m' inp (last (stack m'))"
    by (simp add: find_transition_def st stk)
  show ?thesis
  proof (cases "find_transition m' inp (last (stack m'))")
    case None
    with f assms stk show ?thesis by (simp add: step_def Let_def)
  next
    case (Some t)
    with f assms stk exec_core [OF stk, of t inp inp] show ?thesis
      by (simp add: step_def Let_def)
  qed
qed

lemma replay_core: "core m = core m' \<Longrightarrow> core (replay s m) = core (replay s m')"
proof (induction s arbitrary: m m')
  case Nil
  then show ?case by simp
next
  case (Cons x xs)
  from step_core [OF Cons.prems, of x]
  have "core (snd (step x m)) = core (snd (step x m'))" by simp
  from Cons.IH [OF this] show ?case by simp
qed

lemma process_loop_all_ok:
  "steps_ok s m \<Longrightarrow> process_loop s m = (accepts (replay s m), replay s m)"
proof (induction s arbitrary: m)
  case Nil
  then show ?case by simp
next
  case (Cons x xs)
  then show ?case by (cases "step x m") simp
qed

lemma process_loop_first_failure:
  "steps_ok pre m \<Longrightarrow> \<not> fst (step x (replay pre m)) \<Longrightarrow>
     process_loop (pre @ x # post) m = (False, replay pre m)"
proof (induction pre arbitrary: m)
  case Nil
  then have "snd (step x m) = m" by (simp add: step_failed_unchanged)
  with Nil show ?case by (cases "step x m") simp
next
  case (Cons a pre)
  then show ?case by (cases "step a m") simp
qed

lemma first_failure_exists:
  "\<not> steps_ok s m \<Longrightarrow>
     \<exists>pre x post. s = pre @ x # post \<and> steps_ok pre m \<and> \<not> fst (step x (replay pre m))"
proof (induction s arbitrary: m)
  case Nil
  then show ?case by simp
next
  case (Cons a s)
  show ?case
  proof (cases "fst (step a m)")
    case False
    then have "a # s = [] @ a # s \<and> steps_ok [] m \<and> \<not> fst (step a (replay [] m))" by simp
    then show ?thesis by blast
  next
    case True
    with Cons.prems have "\<not> steps_ok s (snd (step a m))" by simp
    from Cons.IH [OF this] obtain pre x post where
      "s = pre @ x # post" "steps_ok pre (snd (step a m))"
      "\<not> fst (step x (replay pre (snd (step a m))))" by blast
    with True have "a # s = (a # pre) @ x # post \<and> steps_ok (a # pre) m \<and>
        \<not> fst (step x (replay (a # pre) m))" by simp
    then show ?thesis by blast
  qed
qed

lemma process_loop_accepts_iff:
  "fst (process_loop s m) \<longleftrightarrow> steps_ok s m \<and> accepts (replay s m)"
proof (cases "steps_ok s m")
  case True
  then show ?thesis by (simp add: process_loop_all_ok)
next
  case False
  from first_failure_exists [OF this] obtain pre x post where
    "s = pre @ x # post" "steps_ok pre m" "\<not> fst (step x (replay pre m))" by blast
  with False show ?thesis by (simp add: process_loop_first_failure)
qed

lemma add_required_core:
  "core m = core m' \<Longrightarrow>
     fst (add_required r c m) = fst (add_required r c m') \<and>
     core (snd (add_required r c m)) = core (snd (add_required r c m'))"
proof (induction r arbitrary: c m m')
  case Nil
  then show ?case by simp
next
  case (Cons task rest)
  from step_core [OF Cons.prems, of task]
  have ok: "fst (step task m) = fst (step task m')"
    and c: "core (snd (step task m)) = core (snd (step task m'))" by simp_all
  show ?case
  proof (cases "fst (step task m)")
    case False
    with ok c show ?thesis by (cases "step task m"; cases "step task m'") simp
  next
    case True
    with ok Cons.IH [OF c, of "c @ [task]"] show ?thesis
      by (cases "step task m"; cases "step task m'") simp
  qed
qed

lemma loop_summary_unfold:
  "loop_summary i c m =
     (if length (stack m) > 1 \<and> i < max_iterations then
        (case completion_rules (last (stack m)) of
           Some rule \<Rightarrow>
             loop_summary (i + 1) (fst (add_required (required rule) c m))
               (snd (add_required (required rule) c m))
         | None \<Rightarrow> (c, core m, i + 1, True))
      else (c, core m, i, False))"
  unfolding loop_summary_def
  by (subst completion_loop.simps) (simp split: option.splits prod.splits)

lemma loop_summary_core:
  "core m = core m' \<Longrightarrow> loop_summary i c m = loop_summary i c m'"
proof (induction i c m arbitrary: m' rule: completion_loop.induct)
  case (1 i c m)
  from "1.prems" have stk: "stack m = stack m'" and cm: "core m = core m'"
    by (simp_all add: core_def)
  note L = loop_summary_unfold [of i c m] and R = loop_summary_unfold [of i c m']
  show ?case
  proof (cases "length (stack m) > 1 \<and> i < max_iterations")
    case False
    from False stk have False': "\<not> (length (stack m') > 1 \<and> i < max_iterations)"
      by simp
    from L have "loop_summary i c m = (c, core m, i, False)"
      by (simp only: if_not_P [OF False])
    moreover from R have "loop_summary i c m' = (c, core m', i, False)"
      by (simp only: if_not_P [OF False'])
    ultimately show ?thesis using cm by simp
  next
    case True
    show ?thesis
    proof (cases "completion_rules (last (stack m))")
      case None
      with True L have "loop_summary i c m = (c, core m, i + 1, True)" by simp
      moreover from True None stk R have "loop_summary i c m' = (c, core m', i + 1, True)"
        by simp
      ultimately show ?thesis using cm by simp
    next
      case (Some rule)
      obtain c' ma where ar: "add_required (required rule) c m = (c', ma)"
        by (cases "add_required (required rule) c m")
      from add_required_core [OF cm, of "required rule" c] ar
      have f: "fst (add_required (required rule) c m') = c'"
        and s: "core ma = core (snd (add_required (required rule) c m'))" by simp_all
      from "1.IH" [OF True Some ar [symmetric] s]
      have step: "loop_summary (i + 1) c' ma =
            loop_summary (i + 1) c' (snd (add_required (required rule) c m'))" .
      from True Some L ar have "loop_summary i c m = loop_summary (i + 1) c' ma" by simp
      moreover from True Some stk R f
      have "loop_summary i c m' =
              loop_summary (i + 1) c' (snd (add_required (required rule) c m'))" by simp
      ultimately show ?thesis using step by simp
    qed
  qed
qed

section \<open>Reachable states and stacks, and the completion loop from each\<close>

lemma mk_transition_sel:
  "from_state (mk_transition f i s t ope) = f"
  "input_symbol (mk_transition f i s t ope) = i"
  "stack_top (mk_transition f i s t ope) = s"
  "to_state (mk_transition f i s t ope) = t"
  "stack_operation (mk_transition f i s t ope) = ope"
  by (simp_all add: mk_transition_def)

lemma exec_mk_stack:
  "stack (execute_transition (mk_transition f i s t ''pop'') inp m) = butlast (stack m)"
  "stack (execute_transition (mk_transition f i s t ''noop'') inp m) = stack m"
  "stack (execute_transition (mk_transition f i s t ''pop:push:ST'') inp m) =
     butlast (stack m) @ [''ST'']"
  "stack (execute_transition (mk_transition f i s t ''push:R'') inp m) = stack m @ [''R'']"
  "stack (execute_transition (mk_transition f i s t ''push:QRS'') inp m) = stack m @ [''QRS'']"
  "stack (execute_transition (mk_transition f i s t ''push:ST'') inp m) = stack m @ [''ST'']"
  "stack (execute_transition (mk_transition f i s t ''push:ExpectRepol'') inp m) =
     stack m @ [''ExpectRepol'']"
  "stack (execute_transition (mk_transition f i s t ''push:QRS:push:ExpectRepol'') inp m) =
     stack m @ [''QRS'', ''ExpectRepol'']"
  "stack (execute_transition (mk_transition f i s t ''push:QRS:push:ST'') inp m) =
     stack m @ [''QRS'', ''ST'']"
  by (simp_all add: exec_stack mk_transition_sel)

lemmas fast_step = step_def find_transition_def define_transitions_def matches_def Let_def
  mk_transition_sel exec_mk_stack exec_current_state

lemma table_keeps_cores:
  "\<forall>t\<in>set define_transitions. \<forall>c\<in>set reachable_cores.
     from_state t = fst c \<and> stack_top t = last (snd c) \<longrightarrow>
     core (execute_transition t inp (mk_pda (fst c) (snd c))) \<in> set reachable_cores"
  by (simp add: define_transitions_def reachable_cores_def mk_pda_def core_def
        mk_transition_sel exec_mk_stack exec_current_state)


lemma step_stays_reachable:
  assumes c: "core m \<in> set reachable_cores"
  shows "core (snd (step inp m)) \<in> set reachable_cores"
proof (cases "stack m = []")
  case True
  with c show ?thesis by (simp add: step_def)
next
  case ne: False
  show ?thesis
  proof (cases "find_transition m inp (last (stack m))")
    case None
    with ne c show ?thesis by (simp add: step_def Let_def)
  next
    case (Some t)
    from find_transition_Some [OF Some]
    have t: "t \<in> set define_transitions"
      and m: "from_state t = fst (core m) \<and> stack_top t = last (snd (core m))"
      by (simp_all add: matches_def core_def)
    have "core m = core (mk_pda (fst (core m)) (snd (core m)))"
      by (simp add: core_mk_pda)
    then have "stack m = stack (mk_pda (fst (core m)) (snd (core m)))"
      by (simp add: core_def)
    from exec_core [OF this, of t inp inp] table_keeps_cores [of inp] t c m
    have "core (execute_transition t inp m) \<in> set reachable_cores" by auto
    with ne Some show ?thesis by (simp add: step_def Let_def)
  qed
qed

lemma replay_stays_reachable:
  "core m \<in> set reachable_cores \<Longrightarrow> core (replay s m) \<in> set reachable_cores"
  by (induction s arbitrary: m) (simp_all add: step_stays_reachable)

lemma new_pda_reachable: "core new_pda \<in> set reachable_cores"
  by (simp add: core_def new_pda_def initial_state_def reachable_cores_def)

lemmas loop_eval = loop_summary_unfold completion_rules_def max_iterations_def mk_pda_def
  core_def fast_step accepts_def accepting_states_def

lemma loop_from_qRate:
  "loop_summary 0 [] (mk_pda ''qRate'' [''Z0'']) = ([], (''qRate'', [''Z0'']), 0, False)"
  by (simp add: loop_eval)

lemma loop_from_qRhythm_R:
  "loop_summary 0 [] (mk_pda ''qRhythm'' [''Z0'', ''R'']) =
     ([''Rh'', ''Ax'', ''Q'', ''ST'', ''T'', ''Q'', ''ST''], (''qEnd'', [''Z0'']), 3, False)"
  by (simp add: loop_eval)

lemma loop_from_qRhythm:
  "loop_summary 0 [] (mk_pda ''qRhythm'' [''Z0'']) = ([], (''qRhythm'', [''Z0'']), 0, False)"
  by (simp add: loop_eval)

lemma loop_from_qAxis:
  "loop_summary 0 [] (mk_pda ''qAxis'' [''Z0'']) = ([], (''qAxis'', [''Z0'']), 0, False)"
  by (simp add: loop_eval)

lemma loop_from_qMorph:
  "loop_summary 0 [] (mk_pda ''qMorph'' [''Z0'', ''QRS'']) =
     ([''Q'', ''ST'', ''T'', ''Q'', ''ST''], (''qEnd'', [''Z0'']), 2, False)"
  by (simp add: loop_eval)

lemma loop_from_qDetail:
  "loop_summary 0 [] (mk_pda ''qDetail'' [''Z0'', ''QRS'', ''ExpectRepol'']) =
     ([''ST'', ''T'', ''Q'', ''ST''], (''qEnd'', [''Z0'']), 2, False)"
  by (simp add: loop_eval)

lemma loop_from_qST:
  "loop_summary 0 [] (mk_pda ''qST'' [''Z0'', ''QRS'', ''ST'']) =
     ([''T'', ''Q'', ''ST''], (''qEnd'', [''Z0'']), 2, False)"
  by (simp add: loop_eval)

lemma loop_from_qEnd_QRS:
  "loop_summary 0 [] (mk_pda ''qEnd'' [''Z0'', ''QRS'']) =
     ([''Q'', ''ST''], (''qEnd'', [''Z0'']), 1, False)"
  by (simp add: loop_eval)

lemma loop_from_qEnd:
  "loop_summary 0 [] (mk_pda ''qEnd'' [''Z0'']) = ([], (''qEnd'', [''Z0'']), 0, False)"
  by (simp add: loop_eval)

lemmas loop_from = loop_from_qRate loop_from_qRhythm_R loop_from_qRhythm loop_from_qAxis
  loop_from_qMorph loop_from_qDetail loop_from_qST loop_from_qEnd_QRS loop_from_qEnd

lemma loop_from_core:
  "\<forall>c\<in>set reachable_cores.
     (case loop_summary 0 [] (mk_pda (fst c) (snd c)) of
        (completion, c2, its, unk) \<Rightarrow> its \<le> 3 \<and> \<not> unk \<and> snd c2 = [''Z0''])"
  by (simp add: reachable_cores_def loop_from)

lemma core_after_R: "core (replay [''R''] new_pda) = (''qRhythm'', [''Z0'', ''R''])"
  by (simp add: new_pda_def initial_state_def core_def fast_step)

lemma loop_after_R:
  "loop_summary 0 [] (replay [''R''] new_pda) =
     ([''Rh'', ''Ax'', ''Q'', ''ST'', ''T'', ''Q'', ''ST''], (''qEnd'', [''Z0'']), 3, False)"
proof -
  have "core (replay [''R''] new_pda) = core (mk_pda ''qRhythm'' [''Z0'', ''R''])"
    by (simp only: core_after_R core_mk_pda)
  from loop_summary_core [OF this, of 0 "[]"] show ?thesis
    by (simp only: loop_from_qRhythm_R)
qed

lemma core_after_R_Rh: "core (replay [''R'', ''Rh''] new_pda) = (''qAxis'', [''Z0''])"
  by (simp add: new_pda_def initial_state_def core_def fast_step)

lemma steps_ok_R_Rh: "steps_ok [''R'', ''Rh''] new_pda"
  by (simp add: new_pda_def initial_state_def fast_step)


section \<open>Properties of the automaton\<close>

text \<open>
  C1. The specification expects \<open>process_sequence\<close> to return true on the input
  \<open>['R','Rh','Ax','Q','ST','T']\<close>, with final stack \<open>['Z0']\<close> and state \<open>qEnd\<close>.
  The table does not do that: the \<open>QRS\<close> marker pushed on \<open>Ax\<close> is still on the stack
  when \<open>T\<close> leads into \<open>qEnd\<close>, so whatever automaton the run starts from, the result is
  false, the final stack is \<open>['Z0','QRS']\<close> and the final state is \<open>qEnd\<close>.
\<close>

theorem complete_sequence_rejected:
  "fst (process_sequence [''R'', ''Rh'', ''Ax'', ''Q'', ''ST'', ''T''] m) = False \<and>
   stack (snd (process_sequence [''R'', ''Rh'', ''Ax'', ''Q'', ''ST'', ''T''] m)) = [''Z0'', ''QRS''] \<and>
   current_state (snd (process_sequence [''R'', ''Rh'', ''Ax'', ''Q'', ''ST'', ''T''] m)) = ''qEnd''"
  by (simp add: run_defs)

text \<open>
  C3. \<open>accepts\<close> is true if and only if the current state is \<open>qEnd\<close> and the stack is
  exactly \<open>['Z0']\<close>; an automaton in state \<open>qEnd\<close> with any other stack is not
  accepting, and neither is one with stack \<open>['Z0']\<close> in any other state.
\<close>

theorem accepts_iff:
  "(accepts m \<longleftrightarrow> current_state m = ''qEnd'' \<and> stack m = [''Z0'']) \<and>
   (current_state m = ''qEnd'' \<and> stack m \<noteq> [''Z0''] \<longrightarrow> \<not> accepts m) \<and>
   (stack m = [''Z0''] \<and> current_state m \<noteq> ''qEnd'' \<longrightarrow> \<not> accepts m)"
  by (simp add: accepts_def accepting_states_def)

theorem accepts_iff_witness:
  "accepts \<lparr>current_state = ''qEnd'', stack = [''Z0''], history = []\<rparr> \<and>
   \<not> accepts \<lparr>current_state = ''qEnd'', stack = [''Z0'', ''QRS''], history = []\<rparr> \<and>
   \<not> accepts \<lparr>current_state = ''qRate'', stack = [''Z0''], history = []\<rparr>"
  using accepts_iff [of "\<lparr>current_state = ''qEnd'', stack = [''Z0''], history = []\<rparr>"]
    accepts_iff [of "\<lparr>current_state = ''qEnd'', stack = [''Z0'', ''QRS''], history = []\<rparr>"]
    accepts_iff [of "\<lparr>current_state = ''qRate'', stack = [''Z0''], history = []\<rparr>"]
  by simp

text \<open>
  C4. For every input sequence \<open>s\<close>, \<open>process_sequence s\<close> (which resets first) leaves
  a non-empty stack whose bottom entry \<open>stack[0]\<close> is \<open>Z0\<close>; and no transition of the
  table pops the sentinel: executed on a stack with \<open>Z0\<close> at the bottom and the
  transition's own stack symbol on top, every transition of the table leaves a non-empty
  stack with \<open>Z0\<close> at the bottom.
\<close>

theorem stack_bottom_invariant:
  "(let m' = snd (process_sequence s m) in stack m' \<noteq> [] \<and> stack m' ! 0 = ''Z0'') \<and>
   (\<forall>t\<in>set define_transitions. \<forall>inp m.
      stack m \<noteq> [] \<and> stack m ! 0 = ''Z0'' \<and> last (stack m) = stack_top t \<longrightarrow>
      stack (execute_transition t inp m) \<noteq> [] \<and> stack (execute_transition t inp m) ! 0 = ''Z0'')"
proof
  have "has_sentinel (snd (process_sequence s m))"
    unfolding process_sequence_def
    by (rule process_loop_keeps_sentinel) (rule reset_has_sentinel)
  then show "let m' = snd (process_sequence s m) in stack m' \<noteq> [] \<and> stack m' ! 0 = ''Z0''"
    by (simp add: has_sentinel_def)
next
  show "\<forall>t\<in>set define_transitions. \<forall>inp m.
      stack m \<noteq> [] \<and> stack m ! 0 = ''Z0'' \<and> last (stack m) = stack_top t \<longrightarrow>
      stack (execute_transition t inp m) \<noteq> [] \<and> stack (execute_transition t inp m) ! 0 = ''Z0''"
    using execute_keeps_sentinel unfolding has_sentinel_def by blast
qed

theorem stack_bottom_invariant_witness:
  "stack (snd (process_sequence [''R'', ''Rh'', ''Ax'', ''Q'', ''Detail''] new_pda)) \<noteq> [] \<and>
   stack (snd (process_sequence [''R'', ''Rh'', ''Ax'', ''Q'', ''Detail''] new_pda)) ! 0 = ''Z0'' \<and>
   mk_transition ''qRhythm'' ''Rh'' ''R'' ''qAxis'' ''pop'' \<in> set define_transitions \<and>
   stack (execute_transition (mk_transition ''qRhythm'' ''Rh'' ''R'' ''qAxis'' ''pop'') ''Rh''
            \<lparr>current_state = ''qRhythm'', stack = [''Z0'', ''R''], history = []\<rparr>) ! 0 = ''Z0''"
proof -
  let ?t = "mk_transition ''qRhythm'' ''Rh'' ''R'' ''qAxis'' ''pop''"
  let ?m = "\<lparr>current_state = ''qRhythm'', stack = [''Z0'', ''R''], history = []\<rparr>"
  have t: "?t \<in> set define_transitions"
    by (simp add: define_transitions_def)
  have pre: "stack ?m \<noteq> [] \<and> stack ?m ! 0 = ''Z0'' \<and> last (stack ?m) = stack_top ?t"
    by (simp add: mk_transition_def)
  note inv = stack_bottom_invariant
    [of "[''R'', ''Rh'', ''Ax'', ''Q'', ''Detail'']" new_pda]
  from inv have run:
    "stack (snd (process_sequence [''R'', ''Rh'', ''Ax'', ''Q'', ''Detail''] new_pda)) \<noteq> [] \<and>
     stack (snd (process_sequence [''R'', ''Rh'', ''Ax'', ''Q'', ''Detail''] new_pda)) ! 0 = ''Z0''"
    by (simp add: Let_def)
  from inv t pre have "stack (execute_transition ?t ''Rh'' ?m) ! 0 = ''Z0''"
    by blast
  with run t show ?thesis by simp
qed

text \<open>
  C5. When \<open>step\<close> finds no transition of the table matching the current state, the
  input and the top of the stack (or finds the stack empty), it returns false and the
  automaton it leaves is the one it was given: state, stack and history are unchanged,
  and nothing is appended to the history.
\<close>

theorem step_no_transition:
  assumes "stack m = [] \<or>
           (\<forall>t\<in>set define_transitions. \<not> matches (current_state m) inp (last (stack m)) t)"
  shows "step inp m = (False, m)"
  using assms by (auto simp: step_def Let_def find_transition_None [symmetric])

theorem step_no_transition_witness:
  "stack new_pda \<noteq> [] \<and> step ''ST'' new_pda = (False, new_pda)"
proof -
  have "\<forall>t\<in>set define_transitions.
          \<not> matches (current_state new_pda) ''ST'' (last (stack new_pda)) t"
    by (simp add: new_pda_def initial_state_def define_transitions_def mk_transition_def
          matches_def)
  then have "step ''ST'' new_pda = (False, new_pda)"
    by (intro step_no_transition disjI2)
  then show ?thesis by (simp add: new_pda_def)
qed

text \<open>
  C7. \<open>get_missing_tasks\<close> looks for \<open>ExpectRepol\<close>, \<open>QRS\<close> and \<open>ST\<close> anywhere in the
  stack, in that order, and appends for each one present its fixed list (\<open>['ST','T']\<close>,
  \<open>['Q','ST','T']\<close>, \<open>['T']\<close>), without removing duplicates. After
  \<open>process_sequence(['R','Rh','Ax','Q','Detail'])\<close>, which returns false and leaves the
  stack \<open>['Z0','QRS','ExpectRepol']\<close>, it returns \<open>['ST','T','Q','ST','T']\<close>.
\<close>

theorem missing_tasks_rule:
  "get_missing_tasks m =
     (if ''ExpectRepol'' \<in> set (stack m) then [''ST'', ''T''] else []) @
     (if ''QRS'' \<in> set (stack m) then [''Q'', ''ST'', ''T''] else []) @
     (if ''ST'' \<in> set (stack m) then [''T''] else []) \<and>
   fst (process_sequence [''R'', ''Rh'', ''Ax'', ''Q'', ''Detail''] m0) = False \<and>
   stack (snd (process_sequence [''R'', ''Rh'', ''Ax'', ''Q'', ''Detail''] m0)) =
     [''Z0'', ''QRS'', ''ExpectRepol''] \<and>
   get_missing_tasks (snd (process_sequence [''R'', ''Rh'', ''Ax'', ''Q'', ''Detail''] m0)) =
     [''ST'', ''T'', ''Q'', ''ST'', ''T'']"
proof -
  have rule: "get_missing_tasks m =
     (if ''ExpectRepol'' \<in> set (stack m) then [''ST'', ''T''] else []) @
     (if ''QRS'' \<in> set (stack m) then [''Q'', ''ST'', ''T''] else []) @
     (if ''ST'' \<in> set (stack m) then [''T''] else [])" for m
    by (simp add: get_missing_tasks_def Let_def)
  have stk: "stack (snd (process_sequence [''R'', ''Rh'', ''Ax'', ''Q'', ''Detail''] m0)) =
     [''Z0'', ''QRS'', ''ExpectRepol'']"
    by (simp add: run_defs)
  have res: "fst (process_sequence [''R'', ''Rh'', ''Ax'', ''Q'', ''Detail''] m0) = False"
    by (simp add: run_defs)
  from rule stk res show ?thesis by simp
qed

text \<open>
  C9. The table is deterministic: for every transition of the table, the transitions of
  the table that match its (state, input, stack top) triple are that transition alone,
  and it is the one the table scan returns.
\<close>

theorem table_deterministic:
  "\<forall>t\<in>set define_transitions.
     filter (matches (from_state t) (input_symbol t) (stack_top t)) define_transitions = [t] \<and>
     find (matches (from_state t) (input_symbol t) (stack_top t)) define_transitions = Some t"
proof
  fix t assume t: "t \<in> set define_transitions"
  let ?key = "\<lambda>t. (from_state t, input_symbol t, stack_top t)"
  have eq: "matches (from_state t) (input_symbol t) (stack_top t) = (\<lambda>y. ?key y = ?key t)"
    by (auto simp: matches_def fun_eq_iff)
  have f: "filter (matches (from_state t) (input_symbol t) (stack_top t)) define_transitions = [t]"
    unfolding eq using table_keys_distinct t by (rule filter_key_single)
  have "find (matches (from_state t) (input_symbol t) (stack_top t)) define_transitions = Some t"
    using f by (rule find_of_filter_single)
  with f show "filter (matches (from_state t) (input_symbol t) (stack_top t)) define_transitions = [t] \<and>
     find (matches (from_state t) (input_symbol t) (stack_top t)) define_transitions = Some t"
    by simp
qed

theorem table_deterministic_witness:
  "mk_transition ''qST'' ''T'' ''ST'' ''qEnd'' ''pop'' \<in> set define_transitions \<and>
   filter (matches ''qST'' ''T'' ''ST'') define_transitions =
     [mk_transition ''qST'' ''T'' ''ST'' ''qEnd'' ''pop''] \<and>
   find (matches ''qST'' ''T'' ''ST'') define_transitions =
     Some (mk_transition ''qST'' ''T'' ''ST'' ''qEnd'' ''pop'')"
proof -
  let ?t = "mk_transition ''qST'' ''T'' ''ST'' ''qEnd'' ''pop''"
  have t: "?t \<in> set define_transitions"
    by (simp add: define_transitions_def)
  have key: "from_state ?t = ''qST'' \<and> input_symbol ?t = ''T'' \<and> stack_top ?t = ''ST''"
    by (simp add: mk_transition_def)
  from table_deterministic t have
    "filter (matches (from_state ?t) (input_symbol ?t) (stack_top ?t)) define_transitions = [?t] \<and>
     find (matches (from_state ?t) (input_symbol ?t) (stack_top ?t)) define_transitions = Some ?t"
    by blast
  with t key show ?thesis by simp
qed

text \<open>
  C10. On every automaton reachable from \<open>reset\<close> by \<open>step\<close> calls, \<open>is_incomplete\<close>
  is the negation of \<open>accepts\<close>.
\<close>

theorem incomplete_iff_not_accepts:
  "reachable m \<Longrightarrow> is_incomplete m = (\<not> accepts m)"
proof -
  assume "reachable m"
  then have "has_sentinel m" by (rule reachable_has_sentinel)
  then obtain rest where "stack m = ''Z0'' # rest"
    by (cases "stack m") (auto simp: has_sentinel_def)
  then show ?thesis by (auto simp: is_incomplete_def accepts_def)
qed

theorem incomplete_iff_not_accepts_witness:
  "reachable (snd (step ''R'' (reset new_pda))) \<and>
   is_incomplete (snd (step ''R'' (reset new_pda))) =
     (\<not> accepts (snd (step ''R'' (reset new_pda))))"
proof -
  have r: "reachable (snd (step ''R'' (reset new_pda)))"
    by (intro reachable_step reachable_reset)
  from r incomplete_iff_not_accepts [OF r] show ?thesis by simp
qed

section \<open>Properties of whole runs and of the completer\<close>

text \<open>
  C6. \<open>process_sequence\<close> resets the automaton and then steps through the symbols in
  order. If every step succeeds, it returns the value of \<open>accepts\<close> on the automaton
  the steps lead to. If a step fails, it returns false at the first such step, leaving
  the automaton reached by the symbols before it, whatever symbols follow. One of the
  two cases always applies.
\<close>

theorem process_sequence_behaviour:
  "(steps_ok s (reset m) \<longrightarrow>
      process_sequence s m = (accepts (replay s (reset m)), replay s (reset m))) \<and>
   (\<forall>pre x post.
      s = pre @ x # post \<and> steps_ok pre (reset m) \<and> \<not> fst (step x (replay pre (reset m))) \<longrightarrow>
      process_sequence s m = (False, replay pre (reset m))) \<and>
   (steps_ok s (reset m) \<or>
    (\<exists>pre x post.
       s = pre @ x # post \<and> steps_ok pre (reset m) \<and> \<not> fst (step x (replay pre (reset m)))))"
proof (intro conjI allI impI)
  assume "steps_ok s (reset m)"
  then show "process_sequence s m = (accepts (replay s (reset m)), replay s (reset m))"
    unfolding process_sequence_def by (rule process_loop_all_ok)
next
  fix pre x post
  assume "s = pre @ x # post \<and> steps_ok pre (reset m) \<and>
          \<not> fst (step x (replay pre (reset m)))"
  then show "process_sequence s m = (False, replay pre (reset m))"
    unfolding process_sequence_def by (simp add: process_loop_first_failure)
next
  show "steps_ok s (reset m) \<or>
    (\<exists>pre x post.
       s = pre @ x # post \<and> steps_ok pre (reset m) \<and> \<not> fst (step x (replay pre (reset m))))"
    using first_failure_exists [of s "reset m"] by blast
qed

theorem process_sequence_behaviour_witness:
  "fst (process_sequence [''R'', ''Rh'', ''Ax'', ''Q'', ''ST'', ''T'', ''T''] new_pda) \<and>
   process_sequence [''R'', ''ST'', ''T''] new_pda = (False, replay [''R''] (reset new_pda))"
proof -
  let ?s1 = "[''R'', ''Rh'', ''Ax'', ''Q'', ''ST'', ''T'', ''T'']"
  have ok: "steps_ok ?s1 (reset new_pda)"
    by (simp add: reset_eq new_pda_def initial_state_def fast_step)
  have acc: "accepts (replay ?s1 (reset new_pda))"
    by (simp add: reset_eq new_pda_def initial_state_def fast_step accepts_def
          accepting_states_def)
  have fail: "[''R'', ''ST'', ''T''] = [''R''] @ ''ST'' # [''T''] \<and>
      steps_ok [''R''] (reset new_pda) \<and>
      \<not> fst (step ''ST'' (replay [''R''] (reset new_pda)))"
    by (simp add: reset_eq new_pda_def initial_state_def fast_step)
  from process_sequence_behaviour [of ?s1 new_pda] ok
  have "process_sequence ?s1 new_pda =
          (accepts (replay ?s1 (reset new_pda)), replay ?s1 (reset new_pda))"
    by blast
  with acc have a: "fst (process_sequence ?s1 new_pda)" by simp
  from process_sequence_behaviour [of "[''R'', ''ST'', ''T'']" new_pda] fail
  have "process_sequence [''R'', ''ST'', ''T''] new_pda = (False, replay [''R''] (reset new_pda))"
    by blast
  with a show ?thesis by simp
qed

text \<open>
  C8. If \<open>process_sequence\<close> accepts a sequence, \<open>complete_scanpath\<close> returns that
  sequence unchanged.
\<close>

theorem accepted_sequence_unchanged:
  assumes "fst (process_sequence s m)"
  shows "fst (complete_scanpath s m') = s"
proof -
  from assms have "accepts (replay s new_pda)"
    by (simp add: process_sequence_def reset_eq process_loop_accepts_iff)
  then show ?thesis by (simp add: complete_scanpath_def reset_eq Let_def)
qed


theorem accepted_sequence_unchanged_witness:
  "fst (process_sequence [''R'', ''Rh'', ''Ax'', ''Q'', ''ST'', ''T'', ''T''] new_pda) \<and>
   fst (complete_scanpath [''R'', ''Rh'', ''Ax'', ''Q'', ''ST'', ''T'', ''T''] new_pda) =
     [''R'', ''Rh'', ''Ax'', ''Q'', ''ST'', ''T'', ''T'']"
proof -
  have a: "fst (process_sequence [''R'', ''Rh'', ''Ax'', ''Q'', ''ST'', ''T'', ''T''] new_pda)"
    by (simp add: process_sequence_def reset_eq new_pda_def initial_state_def fast_step
          accepts_def accepting_states_def)
  from a accepted_sequence_unchanged [OF a, of new_pda] show ?thesis by simp
qed

text \<open>
  C2, as the code has it. \<open>complete_scanpath\<close> replays the partial sequence. If the
  automaton then accepts, the partial sequence is returned unchanged. Otherwise the
  while loop of \<open>_generate_completion\<close> runs: it ends after at most 3 iterations (so
  before the cap of 50), by its loop condition and never by the break on an unknown
  stack symbol, with the stack reduced to \<open>['Z0']\<close>, and the partial sequence followed
  by the completion is returned. Nothing is said about \<open>validate_completion\<close>
  accepting what is returned.
\<close>

theorem completion_outcome:
  "let m1 = replay partial (reset m) in
   if accepts m1 then complete_scanpath partial m = (partial, m1)
   else (case completion_loop 0 [] m1 of
           (completion, m2, its, unk) \<Rightarrow>
             complete_scanpath partial m = (partial @ completion, m2) \<and>
             its \<le> 3 \<and> its < max_iterations \<and> \<not> unk \<and> stack m2 = [''Z0''])"
proof -
  define m1 where "m1 = replay partial (reset m)"
  let ?mc = "mk_pda (fst (core m1)) (snd (core m1))"
  have m1_new: "m1 = replay partial new_pda"
    by (simp add: m1_def reset_eq)
  have r: "core m1 \<in> set reachable_cores"
    unfolding m1_new by (rule replay_stays_reachable) (rule new_pda_reachable)
  have same: "core m1 = core ?mc"
    by (simp add: core_mk_pda)
  show ?thesis
  proof (cases "accepts m1")
    case True
    then show ?thesis
      by (simp add: complete_scanpath_def Let_def m1_def)
  next
    case False
    obtain completion m2 its unk where
      cl: "completion_loop 0 [] m1 = (completion, m2, its, unk)"
      by (cases "completion_loop 0 [] m1")
    then have "loop_summary 0 [] m1 = (completion, core m2, its, unk)"
      by (simp add: loop_summary_def)
    with loop_summary_core [OF same, of 0 "[]"]
    have sm: "loop_summary 0 [] ?mc = (completion, core m2, its, unk)" by simp
    from loop_from_core r have
      "case loop_summary 0 [] ?mc of
         (completion, c2, its, unk) \<Rightarrow> its \<le> 3 \<and> \<not> unk \<and> snd c2 = [''Z0'']"
      by (rule bspec)
    with sm have facts: "its \<le> 3 \<and> \<not> unk \<and> stack m2 = [''Z0'']"
      by (simp add: core_def)
    then have cap: "its < max_iterations"
      by (simp add: max_iterations_def)
    from False cl have "complete_scanpath partial m = (partial @ completion, m2)"
      by (simp add: complete_scanpath_def generate_completion_def Let_def m1_def)
    with False cl facts cap show ?thesis
      by (simp add: Let_def m1_def)
  qed
qed

theorem completion_outcome_witness:
  "\<not> accepts (replay [''R''] (reset new_pda)) \<and>
   fst (complete_scanpath [''R''] new_pda) =
     [''R'', ''Rh'', ''Ax'', ''Q'', ''ST'', ''T'', ''Q'', ''ST''] \<and>
   stack (snd (complete_scanpath [''R''] new_pda)) = [''Z0'']"
proof -
  let ?m1 = "replay [''R''] (reset new_pda)"
  obtain completion m2 its unk where
    cl: "completion_loop 0 [] ?m1 = (completion, m2, its, unk)"
    by (cases "completion_loop 0 [] ?m1")
  with loop_after_R have c: "completion = [''Rh'', ''Ax'', ''Q'', ''ST'', ''T'', ''Q'', ''ST'']"
    by (simp add: loop_summary_def reset_eq)
  from core_after_R have na: "\<not> accepts ?m1"
    by (simp add: accepts_def core_def reset_eq)
  from completion_outcome [of "[''R'']" new_pda] na cl
  have "complete_scanpath [''R''] new_pda = ([''R''] @ completion, m2) \<and>
        its \<le> 3 \<and> its < max_iterations \<and> \<not> unk \<and> stack m2 = [''Z0'']"
    by (simp add: Let_def)
  with c na show ?thesis by simp
qed

text \<open>
  C2, as claimed, fails for the partial sequence \<open>['R','Rh']\<close>. Its replay leaves
  state \<open>qAxis\<close> with stack \<open>['Z0']\<close>, which is not accepting; the while loop is not
  entered, so nothing is synthesised and the loop does not leave through the break on
  an unknown stack symbol; and the returned sequence \<open>['R','Rh']\<close> is not accepted by
  \<open>validate_completion\<close>.
\<close>

theorem completion_dichotomy_counterexample:
  "\<not> (fst (validate_completion (fst (complete_scanpath [''R'', ''Rh''] new_pda))
             (snd (complete_scanpath [''R'', ''Rh''] new_pda))) \<or>
       (fst (snd (snd (completion_loop 0 [] (replay [''R'', ''Rh''] (reset new_pda)))))
          < max_iterations \<and>
        snd (snd (snd (completion_loop 0 [] (replay [''R'', ''Rh''] (reset new_pda)))))))"
proof -
  let ?m1 = "replay [''R'', ''Rh''] new_pda"
  from core_after_R_Rh have st: "current_state ?m1 = ''qAxis''" and stk: "stack ?m1 = [''Z0'']"
    by (simp_all add: core_def)
  from st have na: "\<not> accepts ?m1"
    by (simp add: accepts_def accepting_states_def)
  from stk have cl: "completion_loop 0 [] ?m1 = ([], ?m1, 0, False)"
    by (subst completion_loop.simps) simp
  from na cl have cs: "complete_scanpath [''R'', ''Rh''] new_pda = ([''R'', ''Rh''], ?m1)"
    by (simp add: complete_scanpath_def generate_completion_def reset_eq Let_def
          del: replay.simps)
  from steps_ok_R_Rh na have "\<not> fst (process_loop [''R'', ''Rh''] new_pda)"
    by (simp only: process_loop_accepts_iff simp_thms)
  then have "\<not> fst (validate_completion [''R'', ''Rh''] ?m1)"
    by (simp only: validate_completion_def process_sequence_def reset_eq simp_thms)
  with cs cl show ?thesis
    by (simp add: reset_eq del: replay.simps)
qed

end
